theory Spec2Isabelle
  imports Complex_Main "HOL-Library.Sublist" "HOL-Library.Product_Lexorder"
begin

section \<open>Strings\<close>

text \<open>
  A Python \<^verbatim>\<open>str\<close> is a sequence of code points. The model takes the code points
  below 256 (Latin-1), one \<^typ>\<open>char\<close> each, so a string is a \<^typ>\<open>string\<close>.
  On that range \<^verbatim>\<open>str.isspace\<close>, \<^verbatim>\<open>str.strip\<close> and \<^verbatim>\<open>str.lower\<close> are the
  functions below: white space is U+0009..U+000D, U+001C..U+0020, U+0085 and U+00A0;
  the upper-case letters are A..Z and U+00C0..U+00DE without the multiplication
  sign U+00D7, each 32 below its lower-case letter.
\<close>

definition isspace :: "char \<Rightarrow> bool" where
  "isspace c =
     (let n = (of_char c :: nat)
      in (9 \<le> n \<and> n \<le> 13) \<or> (28 \<le> n \<and> n \<le> 32) \<or> n = 133 \<or> n = 160)"

definition str_strip :: "string \<Rightarrow> string" where
  "str_strip s = rev (dropWhile isspace (rev (dropWhile isspace s)))"

definition char_lower :: "char \<Rightarrow> char" where
  "char_lower c =
     (let n = (of_char c :: nat)
      in if (65 \<le> n \<and> n \<le> 90) \<or> (192 \<le> n \<and> n \<le> 222 \<and> n \<noteq> 215)
         then char_of (n + 32) else c)"

definition str_lower :: "string \<Rightarrow> string" where
  "str_lower s = map char_lower s"

text \<open>\<^verbatim>\<open>s in t\<close> on strings: \<open>s\<close> occurs in \<open>t\<close> as a contiguous block.\<close>

fun str_in :: "string \<Rightarrow> string \<Rightarrow> bool" where
  "str_in s [] = (s = [])"
| "str_in s (c # t) = (prefix s (c # t) \<or> str_in s t)"

section \<open>The mention labeler\<close>

text \<open>
  A cell of a text column read by \<^verbatim>\<open>read_csv\<close> holds a string or is missing (NaN):
  \<open>None\<close> is the missing cell. \<^verbatim>\<open>label_mentions\<close> reads the columns Brand and
  Response of its frame and adds ResponseEmpty and Mentioned; the other columns
  are carried along.
\<close>

type_synonym cell = "string option"

record brand_row =
  Brand :: cell
  Category :: cell
  Prompt :: cell
  Response :: cell

record labelled_row = brand_row +
  ResponseEmpty :: bool
  Mentioned :: int

datatype py_error = AttributeError | ValueError

text \<open>\<^verbatim>\<open>fillna("").astype(str)\<close> on a text column.\<close>

definition fillna :: "cell \<Rightarrow> string" where
  "fillna c = (case c of None \<Rightarrow> [] | Some s \<Rightarrow> s)"

text \<open>
  The lambda of line 134. A missing Brand is the float NaN, which has no method
  \<^verbatim>\<open>lower\<close>: the call raises AttributeError.
\<close>

definition mention_flag :: "cell \<Rightarrow> string \<Rightarrow> py_error + int" where
  "mention_flag brand response =
     (case brand of
        None \<Rightarrow> Inl AttributeError
      | Some b \<Rightarrow> Inr (if str_in (str_lower b) (str_lower response) then 1 else 0))"

text \<open>\<^verbatim>\<open>np.where(cond, 0, m)\<close> at one position.\<close>

definition np_where :: "bool \<Rightarrow> int \<Rightarrow> int \<Rightarrow> int" where
  "np_where cond a b = (if cond then a else b)"

text \<open>
  One row through the four column assignments of \<^verbatim>\<open>label_mentions\<close>, in the
  order of the source: Response is filled, ResponseEmpty is computed, the lambda
  runs (and may raise), the flag is overridden where ResponseEmpty holds.
\<close>

definition label_row :: "brand_row \<Rightarrow> py_error + labelled_row" where
  "label_row r =
     (let response = fillna (Response r);
          response_empty = (str_strip response = [])
      in case mention_flag (Brand r) response of
           Inl e \<Rightarrow> Inl e
         | Inr m \<Rightarrow>
             Inr \<lparr>Brand = Brand r, Category = Category r, Prompt = Prompt r,
                  Response = Some response, ResponseEmpty = response_empty,
                  Mentioned = np_where response_empty 0 m\<rparr>)"

text \<open>
  The assignment \<^verbatim>\<open>df[col] = df.apply(f, axis=1)\<close> of line 133. On a frame with
  rows, \<^verbatim>\<open>apply\<close> calls \<open>f\<close> on the rows in order, the first exception ends the
  call, and the results are the new column. On a frame without rows \<^verbatim>\<open>apply\<close>
  returns a frame instead of a column, and assigning it to one column raises
  ValueError.
\<close>

fun apply_rows :: "('a \<Rightarrow> py_error + 'b) \<Rightarrow> 'a list \<Rightarrow> py_error + 'b list" where
  "apply_rows f [] = Inl ValueError"
| "apply_rows f [x] = (case f x of Inl e \<Rightarrow> Inl e | Inr y \<Rightarrow> Inr [y])"
| "apply_rows f (x # xs) =
     (case f x of
        Inl e \<Rightarrow> Inl e
      | Inr y \<Rightarrow> (case apply_rows f xs of Inl e \<Rightarrow> Inl e | Inr ys \<Rightarrow> Inr (y # ys)))"

text \<open>
  The frame is the list of its rows. The assignments of lines 131, 132 and 137 are
  element-wise and raise nothing, so on a frame with rows the frame operation is
  the row operation on every row; a frame without rows ends in the ValueError of
  line 133.
\<close>

definition label_mentions :: "brand_row list \<Rightarrow> py_error + labelled_row list" where
  "label_mentions df = apply_rows label_row df"

text \<open>Rows used as concrete inputs below.\<close>

definition apple_row :: brand_row where
  "apple_row = \<lparr>Brand = Some ''Apple'', Category = Some ''Laptop'',
     Prompt = Some ''Is Apple a good Laptop brand?'',
     Response = Some ''Yes, Apple is great''\<rparr>"

definition dell_row :: brand_row where
  "dell_row = \<lparr>Brand = Some ''Dell'', Category = Some ''Laptop'',
     Prompt = Some ''Is Dell a good Laptop brand?'', Response = Some []\<rparr>"

definition hp_row :: brand_row where
  "hp_row = \<lparr>Brand = Some ''HP'', Category = Some ''Laptop'',
     Prompt = Some ''Is HP a good Laptop brand?'', Response = None\<rparr>"

definition space_row :: brand_row where
  "space_row = \<lparr>Brand = Some '' '', Category = Some ''Laptop'',
     Prompt = Some ''Is   a good Laptop brand?'', Response = Some '' ''\<rparr>"

section \<open>The page resolver\<close>

subsection \<open>The lookup service\<close>

text \<open>
  What a call of the \<^verbatim>\<open>wikipedia\<close> package can raise, by the handler that
  catches it: \<^verbatim>\<open>DisambiguationError\<close> with its list \<^verbatim>\<open>options\<close>,
  \<^verbatim>\<open>PageError\<close>, any other subclass of \<^verbatim>\<open>Exception\<close> (a time-out, a
  connection error), and a \<^verbatim>\<open>BaseException\<close> that is no \<^verbatim>\<open>Exception\<close>
  (\<^verbatim>\<open>KeyboardInterrupt\<close>, \<^verbatim>\<open>SystemExit\<close>), which \<^verbatim>\<open>except Exception\<close>
  lets through.
\<close>

datatype wiki_exn =
    DisambiguationError "string list"
  | PageError
  | OtherException
  | BaseException

fun is_Exception :: "wiki_exn \<Rightarrow> bool" where
  "is_Exception BaseException = False"
| "is_Exception _ = True"

text \<open>
  The service answers over the network, so the same request may be answered
  differently at different times: a call takes the state \<open>'w\<close> of the world and
  returns the next one. \<open>page wp t\<close> is \<^verbatim>\<open>wikipedia.page(t, auto_suggest=False)\<close>
  followed by \<^verbatim>\<open>.title\<close>; \<open>search wp q\<close> is \<^verbatim>\<open>wikipedia.search(q)\<close>.
\<close>

record 'w wikipedia =
  page :: "string \<Rightarrow> 'w \<Rightarrow> (wiki_exn + string) \<times> 'w"
  search :: "string \<Rightarrow> 'w \<Rightarrow> (wiki_exn + string list) \<times> 'w"

text \<open>
  Every call is recorded with the place it is made from, its argument and its
  answer: the loop over \<^verbatim>\<open>titles_to_try\<close> (line 64), the loop over the
  disambiguation candidates (line 75), the loop over the search hits (line 89),
  and the search (line 86).
\<close>

datatype site = TitleLoop | CandidateLoop | HitLoop

datatype event =
    PageCall site string "wiki_exn + string"
  | SearchCall string "wiki_exn + string list"

subsection \<open>Candidate titles\<close>

definition WIKI_ALIASES :: "string \<rightharpoonup> string list" where
  "WIKI_ALIASES = map_of
     [(''HP'', [''HP Inc.'', ''Hewlett-Packard'']),
      (''Apple'', [''Apple Inc.'']),
      (''Dell'', [''Dell (company)'', ''Dell Inc.'']),
      (''Lenovo'', [''Lenovo'']),
      (''Asus'', [''Asus'']),
      (''Jabra'', [''Jabra'', ''Jabra (company)'']),
      (''Samsung'', [''Samsung Electronics'', ''Samsung''])]"

text \<open>\<^verbatim>\<open>WIKI_ALIASES.get(brand, [brand])\<close>.\<close>

definition aliases_of :: "string \<Rightarrow> string list" where
  "aliases_of brand = (case WIKI_ALIASES brand of None \<Rightarrow> [brand] | Some titles \<Rightarrow> titles)"

text \<open>
  \<^verbatim>\<open>list(dict.fromkeys(ks))\<close>: the keys enter the dictionary in order, and a key
  that is already there keeps its place.
\<close>

fun fromkeys_into :: "'a list \<Rightarrow> 'a list \<Rightarrow> 'a list" where
  "fromkeys_into keys [] = keys"
| "fromkeys_into keys (k # ks) = fromkeys_into (if k \<in> set keys then keys else keys @ [k]) ks"

definition dict_fromkeys :: "'a list \<Rightarrow> 'a list" where
  "dict_fromkeys ks = fromkeys_into [] ks"

definition titles_to_try :: "string \<Rightarrow> string list" where
  "titles_to_try brand = dict_fromkeys (aliases_of brand @ [brand])"

subsection \<open>The loops\<close>

text \<open>
  The sort key of line 71. Python orders the pairs lexicographically with
  \<open>False < True\<close>, and \<^verbatim>\<open>sorted\<close> is stable, as \<^const>\<open>sort_key\<close> is.
\<close>

definition candidate_key :: "string \<Rightarrow> string \<Rightarrow> bool \<times> nat" where
  "candidate_key brand x = (\<not> str_in (str_lower brand) (str_lower x), length x)"

definition ranked :: "string \<Rightarrow> string list \<Rightarrow> string list" where
  "ranked brand options = sort_key (candidate_key brand) options"

text \<open>
  The two inner loops (lines 73 to 78 and 87 to 92) have the same body: fetch the
  page, return its title, and go on to the next element on any \<^verbatim>\<open>Exception\<close>.
  The result is the title found, the world after the calls and the calls made.
\<close>

fun try_pages ::
  "'w wikipedia \<Rightarrow> site \<Rightarrow> string list \<Rightarrow> 'w \<Rightarrow> (wiki_exn + string option) \<times> 'w \<times> event list"
where
  "try_pages wp st [] w = (Inr None, w, [])"
| "try_pages wp st (cand # rest) w =
     (case page wp cand w of
        (Inr title, w1) \<Rightarrow> (Inr (Some title), w1, [PageCall st cand (Inr title)])
      | (Inl e, w1) \<Rightarrow>
          if is_Exception e
          then (case try_pages wp st rest w1 of
                  (r, w2, evs) \<Rightarrow> (r, w2, PageCall st cand (Inl e) # evs))
          else (Inl e, w1, [PageCall st cand (Inl e)]))"

text \<open>
  The loop of lines 62 to 82, with its three handlers in the order of the source.
  After the candidates of a disambiguation have all failed, control leaves the
  handler and the loop goes on with the next title. An exception raised by a
  fetch in the handler that is no \<^verbatim>\<open>Exception\<close> leaves the function, as does one
  raised by the fetch of the title.
\<close>

fun try_titles ::
  "'w wikipedia \<Rightarrow> string \<Rightarrow> string list \<Rightarrow> 'w \<Rightarrow> (wiki_exn + string option) \<times> 'w \<times> event list"
where
  "try_titles wp brand [] w = (Inr None, w, [])"
| "try_titles wp brand (title # rest) w =
     (case page wp title w of
        (Inr t, w1) \<Rightarrow> (Inr (Some t), w1, [PageCall TitleLoop title (Inr t)])
      | (Inl (DisambiguationError options), w1) \<Rightarrow>
          (case try_pages wp CandidateLoop (take 3 (ranked brand options)) w1 of
             (Inr None, w2, evs) \<Rightarrow>
               (case try_titles wp brand rest w2 of
                  (r, w3, evs') \<Rightarrow>
                    (r, w3, PageCall TitleLoop title (Inl (DisambiguationError options)) # evs @ evs'))
           | (r, w2, evs) \<Rightarrow>
               (r, w2, PageCall TitleLoop title (Inl (DisambiguationError options)) # evs))
      | (Inl PageError, w1) \<Rightarrow>
          (case try_titles wp brand rest w1 of
             (r, w2, evs) \<Rightarrow> (r, w2, PageCall TitleLoop title (Inl PageError) # evs))
      | (Inl OtherException, w1) \<Rightarrow>
          (case try_titles wp brand rest w1 of
             (r, w2, evs) \<Rightarrow> (r, w2, PageCall TitleLoop title (Inl OtherException) # evs))
      | (Inl BaseException, w1) \<Rightarrow>
          (Inl BaseException, w1, [PageCall TitleLoop title (Inl BaseException)]))"

text \<open>Lines 85 to 94: the search and the loop over its first five hits.\<close>

definition search_fallback ::
  "'w wikipedia \<Rightarrow> string \<Rightarrow> 'w \<Rightarrow> (wiki_exn + string option) \<times> 'w \<times> event list"
where
  "search_fallback wp brand w =
     (case search wp brand w of
        (Inr hits, w1) \<Rightarrow>
          (case try_pages wp HitLoop (take 5 hits) w1 of
             (r, w2, evs) \<Rightarrow> (r, w2, SearchCall brand (Inr hits) # evs))
      | (Inl e, w1) \<Rightarrow>
          (if is_Exception e then Inr None else Inl e, w1, [SearchCall brand (Inl e)]))"

text \<open>
  \<^verbatim>\<open>has_wikipedia_page\<close>: \<open>Inr (flag, title)\<close> is the pair returned, \<open>Inl e\<close> an
  exception that leaves the function.
\<close>

definition has_wikipedia_page ::
  "'w wikipedia \<Rightarrow> string \<Rightarrow> 'w \<Rightarrow> (wiki_exn + int \<times> string option) \<times> 'w \<times> event list"
where
  "has_wikipedia_page wp brand w =
     (case try_titles wp brand (titles_to_try brand) w of
        (Inr (Some t), w1, evs) \<Rightarrow> (Inr (1, Some t), w1, evs)
      | (Inl e, w1, evs) \<Rightarrow> (Inl e, w1, evs)
      | (Inr None, w1, evs) \<Rightarrow>
          (case search_fallback wp brand w1 of
             (Inr (Some t), w2, evs') \<Rightarrow> (Inr (1, Some t), w2, evs @ evs')
           | (Inr None, w2, evs') \<Rightarrow> (Inr (0, None), w2, evs @ evs')
           | (Inl e, w2, evs') \<Rightarrow> (Inl e, w2, evs @ evs')))"

subsection \<open>Reading a record of calls\<close>

fun from_site :: "site \<Rightarrow> event \<Rightarrow> bool" where
  "from_site st (PageCall s _ _) = (s = st)"
| "from_site st (SearchCall _ _) = False"

fun fetched :: "event \<Rightarrow> string" where
  "fetched (PageCall _ t _) = t"
| "fetched (SearchCall q _) = q"

text \<open>The title of the page a call returned, and the exception a call raised.\<close>

fun page_title :: "event \<Rightarrow> string option" where
  "page_title (PageCall _ _ (Inr t)) = Some t"
| "page_title _ = None"

fun raised :: "event \<Rightarrow> wiki_exn option" where
  "raised (PageCall _ _ (Inl e)) = Some e"
| "raised (SearchCall _ (Inl e)) = Some e"
| "raised _ = None"

definition succeeded :: "event \<Rightarrow> bool" where
  "succeeded ev = (page_title ev \<noteq> None)"

text \<open>
  A call that raised what no handler catches, and a call that raised an
  \<^verbatim>\<open>Exception\<close>, which the handlers catch.
\<close>

definition interrupted :: "event \<Rightarrow> bool" where
  "interrupted ev = (case raised ev of Some e \<Rightarrow> \<not> is_Exception e | None \<Rightarrow> False)"

definition caught :: "event \<Rightarrow> bool" where
  "caught ev = (case raised ev of Some e \<Rightarrow> is_Exception e | None \<Rightarrow> False)"


text \<open>The titles fetched from one place, in the order of the calls.\<close>

definition attempts :: "site \<Rightarrow> event list \<Rightarrow> string list" where
  "attempts st evs = map fetched (filter (from_site st) evs)"

text \<open>
  Replaying a record of calls against the service from the world \<open>w\<close>: every
  call of the record is made, in order, and has to be answered as recorded. The
  result is the world after the last call, or \<open>None\<close> when some answer of the
  service differs from the record.
\<close>

fun replay :: "'w wikipedia \<Rightarrow> 'w \<Rightarrow> event list \<Rightarrow> 'w option" where
  "replay wp w [] = Some w"
| "replay wp w (PageCall st c a # evs) =
     (case page wp c w of (a', w1) \<Rightarrow> if a' = a then replay wp w1 evs else None)"
| "replay wp w (SearchCall q a # evs) =
     (case search wp q w of (a', w1) \<Rightarrow> if a' = a then replay wp w1 evs else None)"

text \<open>
  In the words of the specification, ``try the titles in order and return on the
  first success'': the calls \<open>evs\<close> are fetches from the place \<open>st\<close> of the first
  titles of \<open>cands\<close>, in order; every call but the last raised an exception that
  was caught; and either the last call returned the page whose title is the
  result, or all titles were tried and all calls were caught (no result), or the
  last call raised what no handler catches.
\<close>

definition first_success ::
  "site \<Rightarrow> string list \<Rightarrow> event list \<Rightarrow> wiki_exn + string option \<Rightarrow> bool"
where
  "first_success st cands evs r =
     (list_all (from_site st) evs \<and> prefix (map fetched evs) cands \<and>
      list_all caught (butlast evs) \<and>
      (case r of
         Inr (Some t) \<Rightarrow> evs \<noteq> [] \<and> page_title (last evs) = Some t
       | Inr None \<Rightarrow> map fetched evs = cands \<and> list_all caught evs
       | Inl e \<Rightarrow> evs \<noteq> [] \<and> \<not> is_Exception e \<and> raised (last evs) = Some e))"

text \<open>A service all of whose failures are instances of \<^verbatim>\<open>Exception\<close>.\<close>

definition lookup_failures_only :: "'w wikipedia \<Rightarrow> bool" where
  "lookup_failures_only wp =
     (\<forall>t w. fst (page wp t w) \<noteq> Inl BaseException \<and> fst (search wp t w) \<noteq> Inl BaseException)"

subsection \<open>Services used as concrete inputs below\<close>

text \<open>A service that is down: every call raises a connection error.\<close>

definition offline :: "unit wikipedia" where
  "offline = \<lparr>page = (\<lambda>t w. (Inl OtherException, w)),
              search = (\<lambda>q w. (Inl OtherException, w))\<rparr>"

text \<open>A service that knows no page and finds nothing.\<close>

definition no_pages :: "unit wikipedia" where
  "no_pages = \<lparr>page = (\<lambda>t w. (Inl PageError, w)), search = (\<lambda>q w. (Inr [], w))\<rparr>"





definition vandelay_options :: "string list" where
  "vandelay_options = [''Vandelay Industries'', ''Importer-exporter'', ''Art Vandelay'']"

text \<open>
  A service on which the title VANDELAY is ambiguous; the fetch of its option
  Art Vandelay times out, and its option Vandelay Industries is a page with
  another title. The world counts the calls.
\<close>

definition redirecting :: "nat wikipedia" where
  "redirecting =
     \<lparr>page = (\<lambda>t w.
        (if t = ''VANDELAY'' then Inl (DisambiguationError vandelay_options)
         else if t = ''Art Vandelay'' then Inl OtherException
         else if t = ''Vandelay Industries'' then Inr ''Vandelay Industries (company)''
         else Inl PageError, Suc w)),
      search = (\<lambda>q w. (Inr [], Suc w))\<rparr>"

text \<open>A service interrupted at its first call.\<close>

definition interrupted_service :: "unit wikipedia" where
  "interrupted_service = \<lparr>page = (\<lambda>t w. (Inl BaseException, w)),
                          search = (\<lambda>q w. (Inl BaseException, w))\<rparr>"

section \<open>The association tester\<close>

record wiki_row = labelled_row +
  HasWiki :: int
  WikiTitle :: cell

text \<open>
  \<^verbatim>\<open>pd.crosstab(a, b)\<close> on two integer columns of one frame: a row for each value
  of \<open>a\<close> and a column for each value of \<open>b\<close>, both in ascending order, and in
  each cell the number of frame rows with that pair of values.
\<close>

type_synonym table = "nat list list"

definition crosstab :: "int list \<Rightarrow> int list \<Rightarrow> table" where
  "crosstab a b =
     (let index = sort (remdups a); columns = sort (remdups b)
      in map (\<lambda>i. map (\<lambda>j. count_list (zip a b) (i, j)) columns) index)"

text \<open>\<^verbatim>\<open>tab.size\<close> is the number of cells, \<^verbatim>\<open>tab.values.sum()\<close> their sum.\<close>

definition tab_size :: "table \<Rightarrow> nat" where
  "tab_size tab = sum_list (map length tab)"

definition tab_sum :: "table \<Rightarrow> nat" where
  "tab_sum tab = sum_list (map sum_list tab)"

text \<open>
  A Python float is an IEEE 754 double. A finite double is taken as the real
  number it stands for, NaN is kept apart.
\<close>

datatype pyfloat = Float real | NaN

text \<open>
  An operation on doubles returns the double nearest to its exact result, the one
  with the even significand when two are equally near. \<open>rne\<close> rounds a real to
  the nearest integer in that way. A double has a significand of 53 bits, so the
  doubles around \<open>x\<close> are the multiples of 2 to the power
  \<open>\<lfloor>log 2 \<bar>x\<bar>\<rfloor> - 52\<close>; below 2 to the power -1022 they are the multiples of 2 to
  the power -1074. Overflow is left out: the numbers rounded below are a count,
  the quotient of a double by a count of at least 1, and a square root of a
  double, and these stay below the largest double.
\<close>

definition rne :: "real \<Rightarrow> int" where
  "rne x =
     (let f = \<lfloor>x\<rfloor>; d = x - of_int f
      in if d < 1 / 2 then f else if 1 / 2 < d then f + 1 else if even f then f else f + 1)"

definition ulp_exponent :: "real \<Rightarrow> int" where
  "ulp_exponent x = max (\<lfloor>log 2 \<bar>x\<bar>\<rfloor> - 52) (- 1074)"

definition round_binary64 :: "real \<Rightarrow> real" where
  "round_binary64 x =
     (if x = 0 then 0 else of_int (rne (x / 2 powi ulp_exponent x)) * 2 powi ulp_exponent x)"

text \<open>The integer \<open>n\<close> as a double, as the division of a double by an integer takes it.\<close>

definition float_of_count :: "nat \<Rightarrow> real" where
  "float_of_count n = round_binary64 (real n)"

text \<open>The division of doubles, for a divisor that is not zero.\<close>

definition float_div :: "real \<Rightarrow> real \<Rightarrow> real" where
  "float_div x y = round_binary64 (x / y)"

text \<open>
  \<^verbatim>\<open>math.sqrt\<close> raises ValueError below zero and returns the double nearest to
  the square root otherwise.
\<close>

definition math_sqrt :: "real \<Rightarrow> py_error + real" where
  "math_sqrt x = (if x < 0 then Inl ValueError else Inr (round_binary64 (sqrt x)))"

text \<open>
  \<^verbatim>\<open>scipy.stats.chi2_contingency\<close> is a parameter: given the observed table it
  raises or returns the statistic, the p-value, the degrees of freedom and the
  expected frequencies; the statistic and the p-value it returns are finite
  doubles.
\<close>

type_synonym chi2_test = "table \<Rightarrow> py_error + real \<times> real \<times> nat \<times> real list list"

text \<open>
  \<^verbatim>\<open>chi_square_on_haswiki\<close> prints what it computes and returns nothing: the
  result of the model is the four numbers it prints, or the exception that ends
  it. The statements after line 206 format and print these numbers and the group
  means and raise nothing.
\<close>

definition chi_square_on_haswiki ::
  "chi2_test \<Rightarrow> wiki_row list \<Rightarrow> py_error + real \<times> real \<times> nat \<times> pyfloat"
where
  "chi_square_on_haswiki chi2_contingency df =
     (let tab = crosstab (map HasWiki df) (map Mentioned df)
      in if tab_size tab = 0 \<or> tab_sum tab = 0 then Inr (0, 1, 0, Float 0)
         else (case chi2_contingency tab of
                 Inl e \<Rightarrow> Inl e
               | Inr (chi2, p, dof, expected) \<Rightarrow>
                   (let n = length df
                    in if n > 0
                       then (case math_sqrt (float_div chi2 (float_of_count n)) of
                               Inl e \<Rightarrow> Inl e
                             | Inr phi \<Rightarrow> Inr (chi2, p, dof, Float phi))
                       else Inr (chi2, p, dof, NaN))))"

text \<open>The number of cells of a table that are zero.\<close>

definition zero_cells :: "table \<Rightarrow> nat" where
  "zero_cells tab = length (filter (\<lambda>c. c = 0) (concat tab))"

text \<open>The column sums of a table whose rows have the length of the first.\<close>

definition col_sums :: "table \<Rightarrow> nat list" where
  "col_sums tab =
     (case tab of
        [] \<Rightarrow> []
      | row # _ \<Rightarrow> map (\<lambda>j. sum_list (map (\<lambda>r. r ! j) tab)) [0..<length row])"

text \<open>
  What the documentation of \<^verbatim>\<open>chi2_contingency\<close> promises: on a table with at
  least one cell whose row sums and column sums are all positive (so that no
  expected frequency is zero) it returns, and the statistic is not negative.
\<close>

definition chi2_contract :: "chi2_test \<Rightarrow> bool" where
  "chi2_contract f =
     (\<forall>tab. tab_size tab \<noteq> 0 \<and> (\<forall>r \<in> set tab. 0 < sum_list r) \<and> (\<forall>c \<in> set (col_sums tab). 0 < c)
        \<longrightarrow> (\<exists>chi2 p dof expected. f tab = Inr (chi2, p, dof, expected) \<and> 0 \<le> chi2))"

text \<open>Inputs used below.\<close>

definition tester_row :: "int \<Rightarrow> int \<Rightarrow> wiki_row" where
  "tester_row h m =
     \<lparr>Brand = Some ''Acme'', Category = None, Prompt = None,
      Response = Some (if m = 1 then ''Acme is fine'' else []),
      ResponseEmpty = (m \<noteq> 1), Mentioned = m, HasWiki = h, WikiTitle = None\<rparr>"

definition three_cells :: "wiki_row list" where
  "three_cells = [tester_row 0 0, tester_row 0 1, tester_row 1 1, tester_row 1 1]"

definition failing_test :: chi2_test where
  "failing_test tab = Inl ValueError"

text \<open>A test that returns the statistic \<open>chi2\<close> on every table.\<close>

definition returning :: "real \<Rightarrow> chi2_test" where
  "returning chi2 tab = Inr (chi2, 1 / 32, 1, [])"

section \<open>Properties of the mention labeler\<close>

lemma str_in_sublist: "str_in s t = sublist s t"
  by (induction t) (auto simp: sublist_Cons_right)

lemma apply_rows_total:
  "xs \<noteq> [] \<Longrightarrow> \<forall>x \<in> set xs. \<exists>y. f x = Inr y \<Longrightarrow> \<exists>ys. apply_rows f xs = Inr ys"
  by (induction f xs rule: apply_rows.induct) auto

lemma apply_rows_error:
  "x \<in> set xs \<Longrightarrow> f x = Inl e \<Longrightarrow> \<exists>e'. apply_rows f xs = Inl e'"
  by (induction f xs rule: apply_rows.induct) (auto split: sum.splits)

lemma apply_rows_no_rows: "apply_rows f xs = Inr ys \<Longrightarrow> xs \<noteq> []"
  by auto

lemma apply_rows_nth:
  "apply_rows f xs = Inr ys \<Longrightarrow>
     length ys = length xs \<and> (\<forall>i < length xs. f (xs ! i) = Inr (ys ! i))"
proof (induction f xs arbitrary: ys rule: apply_rows.induct)
  case (1 f)
  then show ?case by simp
next
  case (2 f x)
  then show ?case by (auto split: sum.splits)
next
  case (3 f x v va)
  let ?xs = "v # va"
  from "3.prems" obtain y ys' where
    fx: "f x = Inr y" and rest: "apply_rows f ?xs = Inr ys'" and ys: "ys = y # ys'"
    by (auto split: sum.splits)
  from "3.IH" [OF fx rest] have
    len: "length ys' = length ?xs" and nth: "\<forall>i < length ?xs. f (?xs ! i) = Inr (ys' ! i)"
    by simp_all
  show ?case
  proof (intro conjI allI impI)
    show "length ys = length (x # ?xs)" using len ys by simp
  next
    fix i assume "i < length (x # ?xs)"
    then show "f ((x # ?xs) ! i) = Inr (ys ! i)"
      using fx nth ys by (cases i) simp_all
  qed
qed

lemma label_row_present: "Brand r \<noteq> None \<Longrightarrow> \<exists>r'. label_row r = Inr r'"
  by (auto simp: label_row_def mention_flag_def Let_def)

lemma label_row_missing: "Brand r = None \<Longrightarrow> label_row r = Inl AttributeError"
  by (simp add: label_row_def mention_flag_def)

lemma label_row_Mentioned:
  "label_row r = Inr r' \<Longrightarrow>
     Mentioned r' =
       (if str_strip (fillna (Response r)) = [] then 0
        else if str_in (str_lower (the (Brand r))) (str_lower (fillna (Response r))) then 1
        else 0)"
  by (auto simp: label_row_def mention_flag_def np_where_def Let_def split: option.splits)

text \<open>
  The labeler returns a frame exactly when the frame has rows and no Brand is
  missing.
\<close>

lemma label_mentions_returns:
  "(\<exists>out. label_mentions df = Inr out) \<longleftrightarrow> df \<noteq> [] \<and> (\<forall>r \<in> set df. Brand r \<noteq> None)"
proof
  assume "\<exists>out. label_mentions df = Inr out"
  then obtain out where out: "label_mentions df = Inr out" ..
  then have rows: "df \<noteq> []"
    unfolding label_mentions_def by (rule apply_rows_no_rows)
  have "\<forall>r \<in> set df. Brand r \<noteq> None"
  proof
    fix r assume r: "r \<in> set df"
    show "Brand r \<noteq> None"
    proof
      assume "Brand r = None"
      then have "label_row r = Inl AttributeError" by (rule label_row_missing)
      with r have "\<exists>e. apply_rows label_row df = Inl e" by (rule apply_rows_error)
      with out show False by (simp add: label_mentions_def)
    qed
  qed
  with rows show "df \<noteq> [] \<and> (\<forall>r \<in> set df. Brand r \<noteq> None)" ..
next
  assume a: "df \<noteq> [] \<and> (\<forall>r \<in> set df. Brand r \<noteq> None)"
  then have "\<forall>r \<in> set df. \<exists>r'. label_row r = Inr r'"
    by (simp add: label_row_present)
  with a show "\<exists>out. label_mentions df = Inr out"
    unfolding label_mentions_def by (intro apply_rows_total) simp_all
qed

lemma label_mentions_no_rows: "label_mentions [] = Inl ValueError"
  by (simp add: label_mentions_def)

text \<open>
  C1. On a frame with rows whose Brand cells are all present, the labeler
  returns a frame of the same length, and in every row whose Response is missing,
  empty or white space only (empty after \<^verbatim>\<open>strip\<close>) Mentioned is 0, whatever the
  Brand is and whether or not it occurs in the Response. (On any other frame the
  labeler raises and produces no flag.)
\<close>

theorem blank_response_not_mentioned:
  assumes "df \<noteq> []" and "\<forall>r \<in> set df. Brand r \<noteq> None"
  shows "\<exists>out. label_mentions df = Inr out \<and> length out = length df \<and>
           (\<forall>i < length df.
              str_strip (fillna (Response (df ! i))) = [] \<longrightarrow> Mentioned (out ! i) = 0)"
proof -
  from assms obtain out where out: "label_mentions df = Inr out"
    using label_mentions_returns by blast
  then have rows: "length out = length df"
    and row: "\<And>i. i < length df \<Longrightarrow> label_row (df ! i) = Inr (out ! i)"
    using apply_rows_nth [of label_row df out] by (simp_all add: label_mentions_def)
  have "Mentioned (out ! i) = 0"
    if "i < length df" and "str_strip (fillna (Response (df ! i))) = []" for i
    using label_row_Mentioned [OF row [OF that(1)]] that(2) by simp
  with out rows show ?thesis by blast
qed

theorem blank_response_not_mentioned_witness:
  "Brand space_row \<noteq> None \<and> Brand dell_row \<noteq> None \<and> Brand hp_row \<noteq> None \<and>
   str_in (str_lower '' '') (str_lower '' '') \<and>
   str_strip (fillna (Response ([space_row, dell_row, hp_row] ! 0))) = [] \<and>
   (\<exists>out. label_mentions [space_row, dell_row, hp_row] = Inr out \<and> Mentioned (out ! 0) = 0)"
proof -
  have brands: "\<forall>r \<in> set [space_row, dell_row, hp_row]. Brand r \<noteq> None"
    by (simp add: space_row_def dell_row_def hp_row_def)
  have blank: "str_strip (fillna (Response ([space_row, dell_row, hp_row] ! 0))) = []"
    by (simp add: space_row_def fillna_def str_strip_def isspace_def)
  have sub: "str_in (str_lower '' '') (str_lower '' '')"
    by (simp add: str_lower_def)
  have rows: "[space_row, dell_row, hp_row] \<noteq> []"
    by simp
  from blank_response_not_mentioned [OF rows brands] blank
  have "\<exists>out. label_mentions [space_row, dell_row, hp_row] = Inr out \<and> Mentioned (out ! 0) = 0"
    by auto
  with brands blank sub show ?thesis by simp
qed

text \<open>
  C2 as stated fails: a Response of one blank is not empty and contains the
  Brand that is one blank, and Mentioned is 0.
\<close>

theorem nonempty_response_counterexample:
  "fillna (Response space_row) \<noteq> [] \<and>
   str_in (str_lower (the (Brand space_row))) (str_lower (fillna (Response space_row))) \<and>
   map Mentioned (projr (label_mentions [space_row])) = [0]"
  by (simp add: space_row_def fillna_def label_mentions_def label_row_def mention_flag_def
      np_where_def str_strip_def isspace_def str_lower_def Let_def)

text \<open>
  C2, amended. On a frame with rows whose Brand cells are all present, the
  labeler returns a frame of the same length, and in every row whose Response is
  not empty after \<^verbatim>\<open>strip\<close>, Mentioned is 1 if the lower-cased Brand occurs in the
  lower-cased Response and 0 otherwise.
\<close>

theorem mentioned_iff_brand_in_response:
  assumes "df \<noteq> []" and "\<forall>r \<in> set df. Brand r \<noteq> None"
  shows "\<exists>out. label_mentions df = Inr out \<and> length out = length df \<and>
           (\<forall>i < length df.
              str_strip (fillna (Response (df ! i))) \<noteq> [] \<longrightarrow>
              Mentioned (out ! i) =
                (if str_in (str_lower (the (Brand (df ! i))))
                      (str_lower (fillna (Response (df ! i))))
                 then 1 else 0))"
proof -
  from assms obtain out where out: "label_mentions df = Inr out"
    using label_mentions_returns by blast
  then have rows: "length out = length df"
    and row: "\<And>i. i < length df \<Longrightarrow> label_row (df ! i) = Inr (out ! i)"
    using apply_rows_nth [of label_row df out] by (simp_all add: label_mentions_def)
  have "Mentioned (out ! i) =
          (if str_in (str_lower (the (Brand (df ! i)))) (str_lower (fillna (Response (df ! i))))
           then 1 else 0)"
    if "i < length df" and "str_strip (fillna (Response (df ! i))) \<noteq> []" for i
    using label_row_Mentioned [OF row [OF that(1)]] that(2) by simp
  with out rows show ?thesis by blast
qed

theorem mentioned_iff_brand_in_response_witness:
  "Brand apple_row \<noteq> None \<and> Brand dell_row \<noteq> None \<and>
   str_strip (fillna (Response ([apple_row, dell_row] ! 0))) \<noteq> [] \<and>
   str_in (str_lower ''Apple'') (str_lower ''Yes, Apple is great'') \<and>
   (\<exists>out. label_mentions [apple_row, dell_row] = Inr out \<and> Mentioned (out ! 0) = 1)"
proof -
  have brands: "\<forall>r \<in> set [apple_row, dell_row]. Brand r \<noteq> None"
    by (simp add: apple_row_def dell_row_def)
  have nonblank: "str_strip (fillna (Response ([apple_row, dell_row] ! 0))) \<noteq> []"
    by (simp add: apple_row_def fillna_def str_strip_def isspace_def)
  have sub: "str_in (str_lower ''Apple'') (str_lower ''Yes, Apple is great'')"
    by (simp add: str_lower_def char_lower_def)
  then have sub': "str_in (str_lower (the (Brand ([apple_row, dell_row] ! 0))))
                     (str_lower (fillna (Response ([apple_row, dell_row] ! 0))))"
    by (simp add: apple_row_def fillna_def)
  have rows: "[apple_row, dell_row] \<noteq> []"
    by simp
  from mentioned_iff_brand_in_response [OF rows brands] nonblank sub'
  have "\<exists>out. label_mentions [apple_row, dell_row] = Inr out \<and> Mentioned (out ! 0) = 1"
    by auto
  with brands nonblank sub show ?thesis by simp
qed

section \<open>Properties of the page resolver\<close>

subsection \<open>The candidate titles\<close>

lemma fromkeys_into_append:
  "fromkeys_into keys (xs @ ys) = fromkeys_into (fromkeys_into keys xs) ys"
  by (induction xs arbitrary: keys) simp_all

lemma set_fromkeys_into: "set (fromkeys_into keys ks) = set keys \<union> set ks"
  by (induction ks arbitrary: keys) auto

lemma distinct_fromkeys_into: "distinct keys \<Longrightarrow> distinct (fromkeys_into keys ks)"
  by (induction ks arbitrary: keys) simp_all

lemma fromkeys_into_distinct: "distinct (keys @ ks) \<Longrightarrow> fromkeys_into keys ks = keys @ ks"
  by (induction ks arbitrary: keys) auto

lemma distinct_dict_fromkeys: "distinct (dict_fromkeys ks)"
  by (simp add: dict_fromkeys_def distinct_fromkeys_into)

lemma set_dict_fromkeys: "set (dict_fromkeys ks) = set ks"
  by (simp add: dict_fromkeys_def set_fromkeys_into)

lemma dict_fromkeys_distinct: "distinct ks \<Longrightarrow> dict_fromkeys ks = ks"
  using fromkeys_into_distinct [of "[]" ks] by (simp add: dict_fromkeys_def)

lemma dict_fromkeys_snoc:
  "dict_fromkeys (ks @ [k]) = dict_fromkeys ks @ (if k \<in> set ks then [] else [k])"
  by (simp add: dict_fromkeys_def fromkeys_into_append set_fromkeys_into)

text \<open>Every list of the alias table is free of duplicates.\<close>

lemma WIKI_ALIASES_distinct: "WIKI_ALIASES brand = Some titles \<Longrightarrow> distinct titles"
proof -
  assume "WIKI_ALIASES brand = Some titles"
  then have "(brand, titles) \<in> set
     [(''HP'', [''HP Inc.'', ''Hewlett-Packard'']),
      (''Apple'', [''Apple Inc.'']),
      (''Dell'', [''Dell (company)'', ''Dell Inc.'']),
      (''Lenovo'', [''Lenovo'']),
      (''Asus'', [''Asus'']),
      (''Jabra'', [''Jabra'', ''Jabra (company)'']),
      (''Samsung'', [''Samsung Electronics'', ''Samsung''])]"
    unfolding WIKI_ALIASES_def by (rule map_of_SomeD)
  then show "distinct titles" by auto
qed

lemma titles_to_try_unconfigured: "WIKI_ALIASES brand = None \<Longrightarrow> titles_to_try brand = [brand]"
  by (simp add: titles_to_try_def aliases_of_def dict_fromkeys_def)

lemma titles_to_try_configured:
  assumes "WIKI_ALIASES brand = Some titles"
  shows "titles_to_try brand = titles @ (if brand \<in> set titles then [] else [brand])"
proof -
  have "dict_fromkeys titles = titles"
    using assms by (intro dict_fromkeys_distinct WIKI_ALIASES_distinct)
  with assms show ?thesis
    by (simp add: titles_to_try_def aliases_of_def dict_fromkeys_snoc)
qed

lemma distinct_titles_to_try: "distinct (titles_to_try brand)"
  by (simp add: titles_to_try_def distinct_dict_fromkeys)

subsection \<open>The loops, case by case\<close>

lemma caught_simps [simp]:
  "caught (PageCall st c (Inl e)) = is_Exception e"
  "caught (PageCall st c (Inr t)) = False"
  "caught (SearchCall q (Inl e)) = is_Exception e"
  "caught (SearchCall q (Inr hits)) = False"
  by (simp_all add: caught_def)

lemma interrupted_simps [simp]:
  "interrupted (PageCall st c (Inl e)) = (\<not> is_Exception e)"
  "interrupted (PageCall st c (Inr t)) = False"
  "interrupted (SearchCall q (Inl e)) = (\<not> is_Exception e)"
  "interrupted (SearchCall q (Inr hits)) = False"
  by (simp_all add: interrupted_def)

lemma succeeded_simps [simp]:
  "succeeded (PageCall st c (Inr t)) = True"
  "succeeded (PageCall st c (Inl e)) = False"
  "succeeded (SearchCall q a) = False"
  by (simp_all add: succeeded_def)

lemma caught_not_succeeded: "caught ev \<Longrightarrow> \<not> succeeded ev \<and> \<not> interrupted ev"
  by (cases ev rule: raised.cases) simp_all

lemma try_pages_cases [consumes 1, case_names success interrupt continue]:
  assumes "try_pages wp st (c # cs) w = (r, w', evs)"
  obtains
    (success) t where "page wp c w = (Inr t, w')" "r = Inr (Some t)"
      "evs = [PageCall st c (Inr t)]"
  | (interrupt) e where "page wp c w = (Inl e, w')" "\<not> is_Exception e" "r = Inl e"
      "evs = [PageCall st c (Inl e)]"
  | (continue) e w1 evs' where "page wp c w = (Inl e, w1)" "is_Exception e"
      "try_pages wp st cs w1 = (r, w', evs')" "evs = PageCall st c (Inl e) # evs'"
  using assms by (auto split: prod.splits sum.splits if_splits)

lemma try_titles_cases
  [consumes 1, case_names success stop next_title interrupt continue]:
  assumes "try_titles wp brand (title # rest) w = (r, w', evs)"
  obtains
    (success) t where "page wp title w = (Inr t, w')" "r = Inr (Some t)"
      "evs = [PageCall TitleLoop title (Inr t)]"
  | (stop) options w1 cevs where "page wp title w = (Inl (DisambiguationError options), w1)"
      "try_pages wp CandidateLoop (take 3 (ranked brand options)) w1 = (r, w', cevs)"
      "r \<noteq> Inr None"
      "evs = PageCall TitleLoop title (Inl (DisambiguationError options)) # cevs"
  | (next_title) options w1 w2 cevs evs' where
      "page wp title w = (Inl (DisambiguationError options), w1)"
      "try_pages wp CandidateLoop (take 3 (ranked brand options)) w1 = (Inr None, w2, cevs)"
      "try_titles wp brand rest w2 = (r, w', evs')"
      "evs = PageCall TitleLoop title (Inl (DisambiguationError options)) # cevs @ evs'"
  | (interrupt) "page wp title w = (Inl BaseException, w')" "r = Inl BaseException"
      "evs = [PageCall TitleLoop title (Inl BaseException)]"
  | (continue) e w1 evs' where "page wp title w = (Inl e, w1)"
      "e = PageError \<or> e = OtherException"
      "try_titles wp brand rest w1 = (r, w', evs')"
      "evs = PageCall TitleLoop title (Inl e) # evs'"
  using assms
  by (auto split: prod.splits sum.splits wiki_exn.splits option.splits)

lemma first_success_Nil: "first_success st [] [] (Inr None)"
  by (simp add: first_success_def)

lemma first_success_single:
  "first_success st (c # cs) [PageCall st c (Inr t)] (Inr (Some t))"
  by (simp add: first_success_def)

lemma first_success_interrupt:
  "\<not> is_Exception e \<Longrightarrow> first_success st (c # cs) [PageCall st c (Inl e)] (Inl e)"
  by (simp add: first_success_def)

lemma first_success_Cons:
  assumes "is_Exception e" and "first_success st cs evs r"
  shows "first_success st (c # cs) (PageCall st c (Inl e) # evs) r"
proof (cases "evs = []")
  case True
  with assms show ?thesis
    by (auto simp: first_success_def split: sum.splits option.splits)
next
  case False
  with assms show ?thesis
    by (auto simp: first_success_def split: sum.splits option.splits)
qed

lemma try_pages_first_success:
  "try_pages wp st cs w = (r, w', evs) \<Longrightarrow> first_success st cs evs r"
proof (induction cs arbitrary: w r w' evs)
  case Nil
  then show ?case using first_success_Nil [of st] by auto
next
  case (Cons c cs)
  from Cons.prems show ?case
  proof (cases rule: try_pages_cases)
    case (success t)
    then show ?thesis by (simp add: first_success_single)
  next
    case (interrupt e)
    then show ?thesis by (simp add: first_success_interrupt)
  next
    case (continue e w1 evs')
    from Cons.IH [OF continue(3)] continue(2,4) show ?thesis
      by (simp add: first_success_Cons)
  qed
qed

lemma filter_other_site:
  "list_all (from_site st) evs \<Longrightarrow> st' \<noteq> st \<Longrightarrow> filter (from_site st') evs = []"
proof (induction evs)
  case Nil
  then show ?case by simp
next
  case (Cons ev evs)
  then show ?case by (cases ev) auto
qed

lemma first_success_result:
  assumes "first_success st cs evs r"
  shows "case r of
           Inr (Some t) \<Rightarrow> evs \<noteq> [] \<and> page_title (last evs) = Some t
         | Inr None \<Rightarrow> list_all caught evs
         | Inl e \<Rightarrow> evs \<noteq> [] \<and> \<not> is_Exception e \<and> raised (last evs) = Some e"
  using assms by (auto simp: first_success_def split: sum.splits option.splits)



lemma try_titles_attempts:
  "try_titles wp brand ts w = (r, w', evs) \<Longrightarrow>
     prefix (attempts TitleLoop evs) ts \<and> (r = Inr None \<longrightarrow> attempts TitleLoop evs = ts)"
proof (induction ts arbitrary: w r w' evs)
  case Nil
  then show ?case by (auto simp: attempts_def)
next
  case (Cons title rest)
  have cand: "filter (from_site TitleLoop) cevs = []"
    if "try_pages wp CandidateLoop cs w1 = (r1, w2, cevs)" for cs w1 r1 w2 cevs
    using try_pages_first_success [OF that] filter_other_site [of CandidateLoop cevs TitleLoop]
    by (simp add: first_success_def)
  from Cons.prems show ?case
  proof (cases rule: try_titles_cases)
    case (success t)
    then show ?thesis by (simp add: attempts_def)
  next
    case (stop options w1 cevs)
    with cand [OF stop(2)] show ?thesis by (simp add: attempts_def)
  next
    case (next_title options w1 w2 cevs evs')
    with cand [OF next_title(2)] Cons.IH [OF next_title(3)] show ?thesis
      by (simp add: attempts_def)
  next
    case interrupt
    then show ?thesis by (simp add: attempts_def)
  next
    case (continue e w1 evs')
    with Cons.IH [OF continue(3)] show ?thesis by (simp add: attempts_def)
  qed
qed

lemma try_titles_result:
  "try_titles wp brand ts w = (r, w', evs) \<Longrightarrow>
     (case r of
        Inr (Some t) \<Rightarrow> evs \<noteq> [] \<and> page_title (last evs) = Some t
      | Inr None \<Rightarrow> list_all caught evs
      | Inl e \<Rightarrow> evs \<noteq> [] \<and> \<not> is_Exception e \<and> raised (last evs) = Some e)"
proof (induction ts arbitrary: w r w' evs)
  case Nil
  then show ?case by auto
next
  case (Cons title rest)
  from Cons.prems show ?case
  proof (cases rule: try_titles_cases)
    case (success t)
    then show ?thesis by simp
  next
    case (stop options w1 cevs)
    from first_success_result [OF try_pages_first_success [OF stop(2)]] stop(3,4)
    show ?thesis by (auto split: sum.splits option.splits)
  next
    case (next_title options w1 w2 cevs evs')
    from first_success_result [OF try_pages_first_success [OF next_title(2)]]
    have c: "list_all caught cevs" by simp
    from Cons.IH [OF next_title(3)] c next_title(4) show ?thesis
      by (auto split: sum.splits option.splits)
  next
    case interrupt
    then show ?thesis by simp
  next
    case (continue e w1 evs')
    from Cons.IH [OF continue(3)] continue(2,4) show ?thesis
      by (auto split: sum.splits option.splits)
  qed
qed



lemma search_fallback_cases [consumes 1, case_names hits failed]:
  assumes "search_fallback wp brand w = (r, w', evs)"
  obtains
    (hits) hits w1 hevs where "search wp brand w = (Inr hits, w1)"
      "try_pages wp HitLoop (take 5 hits) w1 = (r, w', hevs)"
      "evs = SearchCall brand (Inr hits) # hevs"
  | (failed) e where "search wp brand w = (Inl e, w')"
      "r = (if is_Exception e then Inr None else Inl e)"
      "evs = [SearchCall brand (Inl e)]"
  using assms unfolding search_fallback_def
  by (auto split: prod.splits sum.splits)

lemma has_wikipedia_page_cases [consumes 1, case_names found interrupt fallback]:
  assumes "has_wikipedia_page wp brand w = (res, w', evs)"
  obtains
    (found) t where "try_titles wp brand (titles_to_try brand) w = (Inr (Some t), w', evs)"
      "res = Inr (1, Some t)"
  | (interrupt) e where "try_titles wp brand (titles_to_try brand) w = (Inl e, w', evs)"
      "res = Inl e"
  | (fallback) w1 tevs r sevs where
      "try_titles wp brand (titles_to_try brand) w = (Inr None, w1, tevs)"
      "search_fallback wp brand w1 = (r, w', sevs)"
      "evs = tevs @ sevs"
      "res = (case r of Inr (Some t) \<Rightarrow> Inr (1, Some t) | Inr None \<Rightarrow> Inr (0, None)
              | Inl e \<Rightarrow> Inl e)"
  using assms unfolding has_wikipedia_page_def
  by (auto split: prod.splits sum.splits option.splits)

lemma search_fallback_result:
  assumes "search_fallback wp brand w = (r, w', evs)"
  shows "evs \<noteq> [] \<and> hd evs = SearchCall brand (fst (search wp brand w)) \<and>
         (case r of
            Inr (Some t) \<Rightarrow> page_title (last evs) = Some t
          | Inr None \<Rightarrow> True
          | Inl e \<Rightarrow> \<not> is_Exception e \<and> raised (last evs) = Some e)"
  using assms
proof (cases rule: search_fallback_cases)
  case (hits hits w1 hevs)
  from first_success_result [OF try_pages_first_success [OF hits(2)]] hits(1,3)
  show ?thesis by (auto split: sum.splits option.splits)
next
  case (failed e)
  then show ?thesis by (auto split: sum.splits option.splits)
qed






lemma is_Exception_iff: "is_Exception e \<longleftrightarrow> e \<noteq> BaseException"
  by (cases e) simp_all

subsection \<open>No exception of the service leaves the resolver\<close>

lemma page_failure_is_Exception:
  assumes "lookup_failures_only wp" and "page wp c w = (Inl e, w')"
  shows "is_Exception e"
proof -
  from assms(1) have "fst (page wp c w) \<noteq> Inl BaseException"
    by (simp add: lookup_failures_only_def)
  with assms(2) show ?thesis by (simp add: is_Exception_iff)
qed

lemma search_failure_is_Exception:
  assumes "lookup_failures_only wp" and "search wp q w = (Inl e, w')"
  shows "is_Exception e"
proof -
  from assms(1) have "fst (search wp q w) \<noteq> Inl BaseException"
    by (simp add: lookup_failures_only_def)
  with assms(2) show ?thesis by (simp add: is_Exception_iff)
qed

lemma try_pages_absorbs:
  assumes "lookup_failures_only wp"
  shows "try_pages wp st cs w = (r, w', evs) \<Longrightarrow> \<exists>found. r = Inr found"
proof (induction cs arbitrary: w r w' evs)
  case Nil
  then show ?case by auto
next
  case (Cons c cs)
  from Cons.prems show ?case
  proof (cases rule: try_pages_cases)
    case (success t)
    then show ?thesis by simp
  next
    case (interrupt e)
    with page_failure_is_Exception [OF assms interrupt(1)] show ?thesis by simp
  next
    case (continue e w1 evs')
    from Cons.IH [OF continue(3)] show ?thesis .
  qed
qed

lemma try_titles_absorbs:
  assumes "lookup_failures_only wp"
  shows "try_titles wp brand ts w = (r, w', evs) \<Longrightarrow> \<exists>found. r = Inr found"
proof (induction ts arbitrary: w r w' evs)
  case Nil
  then show ?case by auto
next
  case (Cons title rest)
  from Cons.prems show ?case
  proof (cases rule: try_titles_cases)
    case (success t)
    then show ?thesis by simp
  next
    case (stop options w1 cevs)
    from try_pages_absorbs [OF assms stop(2)] show ?thesis .
  next
    case (next_title options w1 w2 cevs evs')
    from Cons.IH [OF next_title(3)] show ?thesis .
  next
    case interrupt
    with page_failure_is_Exception [OF assms interrupt(1)] show ?thesis by simp
  next
    case (continue e w1 evs')
    from Cons.IH [OF continue(3)] show ?thesis .
  qed
qed

lemma search_fallback_absorbs:
  assumes "lookup_failures_only wp" and "search_fallback wp brand w = (r, w', evs)"
  shows "\<exists>found. r = Inr found"
  using assms(2)
proof (cases rule: search_fallback_cases)
  case (hits hits w1 hevs)
  from try_pages_absorbs [OF assms(1) hits(2)] show ?thesis .
next
  case (failed e)
  with search_failure_is_Exception [OF assms(1) failed(1)] show ?thesis by simp
qed

lemma search_call_in_fallback:
  assumes "search_fallback wp brand w = (r, w', evs)"
  shows "evs \<noteq> [] \<and> hd evs = SearchCall brand (fst (search wp brand w)) \<and>
         attempts TitleLoop evs = []"
  using assms
proof (cases rule: search_fallback_cases)
  case (hits hits w1 hevs)
  from try_pages_first_success [OF hits(2)]
  have "filter (from_site TitleLoop) hevs = []"
    using filter_other_site [of HitLoop hevs TitleLoop] by (simp add: first_success_def)
  with hits show ?thesis by (simp add: attempts_def)
next
  case (failed e)
  then show ?thesis by (simp add: attempts_def)
qed

subsection \<open>The claims about the page resolver\<close>

lemma has_wikipedia_page_attempts:
  assumes "has_wikipedia_page wp brand w = (res, w', evs)"
  shows "prefix (attempts TitleLoop evs) (titles_to_try brand)"
  using assms
proof (cases rule: has_wikipedia_page_cases)
  case (found t)
  from try_titles_attempts [OF found(1)] show ?thesis by simp
next
  case (interrupt e)
  from try_titles_attempts [OF interrupt(1)] show ?thesis by simp
next
  case (fallback w1 tevs r sevs)
  from try_titles_attempts [OF fallback(1)] search_call_in_fallback [OF fallback(2)] fallback(3)
  show ?thesis by (simp add: attempts_def)
qed

text \<open>
  C5 as stated fails for the brand Jabra, whose alias list names the brand itself
  first: its alias Jabra (company) is tried after the raw brand name.
\<close>

theorem aliases_first_counterexample:
  "WIKI_ALIASES ''Jabra'' = Some [''Jabra'', ''Jabra (company)''] \<and>
   titles_to_try ''Jabra'' = [''Jabra'', ''Jabra (company)''] \<and>
   attempts TitleLoop (snd (snd (has_wikipedia_page no_pages ''Jabra'' ()))) =
     [''Jabra'', ''Jabra (company)'']"
  by code_simp

text \<open>
  C5, amended. The candidate titles of a brand are free of duplicates. A brand
  without an entry in the alias table has its own name as the only candidate. For
  a brand with an entry they are its aliases in the order of the table, followed
  by the raw brand name unless that is one of the aliases (it then keeps its place
  among them). The titles fetched by the loop over the candidates are an initial
  part of this list, in its order; and when the brand name is not one of the
  aliases and is fetched, the fetches before it are exactly the aliases.
\<close>

theorem candidate_titles_in_order:
  assumes "has_wikipedia_page wp brand w = (res, w', evs)"
  shows "distinct (titles_to_try brand) \<and>
         (WIKI_ALIASES brand = None \<longrightarrow> titles_to_try brand = [brand]) \<and>
         (\<forall>titles. WIKI_ALIASES brand = Some titles \<longrightarrow>
            titles_to_try brand = titles @ (if brand \<in> set titles then [] else [brand])) \<and>
         prefix (attempts TitleLoop evs) (titles_to_try brand) \<and>
         (\<forall>titles us vs.
            WIKI_ALIASES brand = Some titles \<and> brand \<notin> set titles \<and>
            attempts TitleLoop evs = us @ brand # vs \<longrightarrow> us = titles \<and> vs = [])"
proof (intro conjI allI impI)
  show "distinct (titles_to_try brand)" by (rule distinct_titles_to_try)
next
  assume "WIKI_ALIASES brand = None"
  then show "titles_to_try brand = [brand]" by (rule titles_to_try_unconfigured)
next
  fix titles assume "WIKI_ALIASES brand = Some titles"
  then show "titles_to_try brand = titles @ (if brand \<in> set titles then [] else [brand])"
    by (rule titles_to_try_configured)
next
  show "prefix (attempts TitleLoop evs) (titles_to_try brand)"
    using assms by (rule has_wikipedia_page_attempts)
next
  fix titles us vs
  assume a: "WIKI_ALIASES brand = Some titles \<and> brand \<notin> set titles \<and>
             attempts TitleLoop evs = us @ brand # vs"
  then have tt: "titles_to_try brand = titles @ [brand]"
    by (simp add: titles_to_try_configured)
  from has_wikipedia_page_attempts [OF assms] a tt
  obtain zs where eq: "titles @ [brand] = us @ brand # (vs @ zs)"
    by (auto simp: prefix_def)
  from a eq have "titles = us \<and> [] = vs @ zs"
    using append_Cons_eq_iff [where x = brand and xs = titles and ys = "[]" and xs' = us
        and ys' = "vs @ zs"] by simp
  then show "us = titles" and "vs = []" by simp_all
qed

theorem candidate_titles_in_order_witness:
  "WIKI_ALIASES ''HP'' = Some [''HP Inc.'', ''Hewlett-Packard''] \<and>
   ''HP'' \<notin> set [''HP Inc.'', ''Hewlett-Packard''] \<and>
   titles_to_try ''HP'' = [''HP Inc.'', ''Hewlett-Packard''] @ [''HP''] \<and>
   attempts TitleLoop (snd (snd (has_wikipedia_page no_pages ''HP'' ()))) =
     [''HP Inc.'', ''Hewlett-Packard''] @ ''HP'' # []"
proof -
  have run: "has_wikipedia_page no_pages ''HP'' () =
      (Inr (0, None), (),
       [PageCall TitleLoop ''HP Inc.'' (Inl PageError),
        PageCall TitleLoop ''Hewlett-Packard'' (Inl PageError),
        PageCall TitleLoop ''HP'' (Inl PageError),
        SearchCall ''HP'' (Inr [])])"
    by code_simp
  have aliases: "WIKI_ALIASES ''HP'' = Some [''HP Inc.'', ''Hewlett-Packard'']"
    by code_simp
  have fresh: "''HP'' \<notin> set [''HP Inc.'', ''Hewlett-Packard'']"
    by simp
  have tried: "attempts TitleLoop (snd (snd (has_wikipedia_page no_pages ''HP'' ()))) =
      [''HP Inc.'', ''Hewlett-Packard''] @ ''HP'' # []"
    by code_simp
  from candidate_titles_in_order [OF run] aliases fresh
  have "titles_to_try ''HP'' = [''HP Inc.'', ''Hewlett-Packard''] @ [''HP'']"
    by simp
  with aliases fresh tried show ?thesis by blast
qed






text \<open>
  C8. Against a service whose calls raise nothing but instances of
  \<^verbatim>\<open>Exception\<close> (ambiguous title, page not found, any other failure), on
  whichever calls and in whichever order, the resolver returns a pair and no
  exception leaves it. When the pair is 0 and no title, every failure advanced
  the resolver: every candidate title was fetched and the search was made.
\<close>

theorem lookup_failures_absorbed:
  assumes "lookup_failures_only wp"
  shows "\<exists>flag title w' evs.
           has_wikipedia_page wp brand w = (Inr (flag, title), w', evs) \<and>
           (flag = 0 \<longrightarrow>
              attempts TitleLoop evs = titles_to_try brand \<and>
              (\<exists>answer. SearchCall brand answer \<in> set evs))"
proof -
  obtain res w' evs where run: "has_wikipedia_page wp brand w = (res, w', evs)"
    by (cases "has_wikipedia_page wp brand w") auto
  from run show ?thesis
  proof (cases rule: has_wikipedia_page_cases)
    case (found t)
    with run show ?thesis by simp
  next
    case (interrupt e)
    with try_titles_absorbs [OF assms interrupt(1)] show ?thesis by simp
  next
    case (fallback w1 tevs r sevs)
    from search_fallback_absorbs [OF assms fallback(2)] obtain fnd where r: "r = Inr fnd" ..
    from try_titles_attempts [OF fallback(1)] search_call_in_fallback [OF fallback(2)] fallback(3)
    have tried: "attempts TitleLoop evs = titles_to_try brand"
      by (simp add: attempts_def)
    from search_call_in_fallback [OF fallback(2)] fallback(3)
    have "SearchCall brand (fst (search wp brand w1)) \<in> set evs"
      by (cases sevs) auto
    then have searched: "\<exists>answer. SearchCall brand answer \<in> set evs" ..
    from run fallback(4) r tried searched show ?thesis
      by (cases fnd) auto
  qed
qed

theorem lookup_failures_absorbed_witness:
  "lookup_failures_only offline \<and>
   (\<exists>flag title w' evs.
      has_wikipedia_page offline ''Apple'' () = (Inr (flag, title), w', evs) \<and> flag = 0 \<and>
      attempts TitleLoop evs = titles_to_try ''Apple'')"
proof -
  have svc: "lookup_failures_only offline"
    by (simp add: lookup_failures_only_def offline_def)
  have run: "has_wikipedia_page offline ''Apple'' () =
     (Inr (0, None), (),
      [PageCall TitleLoop ''Apple Inc.'' (Inl OtherException),
       PageCall TitleLoop ''Apple'' (Inl OtherException),
       SearchCall ''Apple'' (Inl OtherException)])"
    by code_simp
  from lookup_failures_absorbed [OF svc, of "''Apple''" "()"] run
  have "\<exists>flag title w' evs.
      has_wikipedia_page offline ''Apple'' () = (Inr (flag, title), w', evs) \<and> flag = 0 \<and>
      attempts TitleLoop evs = titles_to_try ''Apple''"
    by auto
  with svc show ?thesis ..
qed

text \<open>An exception that is no \<^verbatim>\<open>Exception\<close> does leave the resolver.\<close>

lemma interrupt_propagates:
  "fst (has_wikipedia_page interrupted_service ''Apple'' ()) = Inl BaseException"
  by code_simp

subsection \<open>The record of calls is what the service answered\<close>

lemma replay_append:
  "replay wp w (xs @ ys) =
     (case replay wp w xs of None \<Rightarrow> None | Some w1 \<Rightarrow> replay wp w1 ys)"
proof (induction xs arbitrary: w)
  case Nil
  then show ?case by simp
next
  case (Cons ev xs)
  then show ?case by (cases ev) (auto split: prod.splits)
qed

lemma replay_last_page:
  assumes "replay wp w evs = Some w'" and "evs \<noteq> []" and "page_title (last evs) = Some t"
  shows "\<exists>w0. page wp (fetched (last evs)) w0 = (Inr t, w')"
proof -
  from assms(2) obtain xs ev where evs: "evs = xs @ [ev]"
    by (metis append_butlast_last_id)
  with assms(3) obtain st c where ev: "ev = PageCall st c (Inr t)"
    by (cases ev rule: page_title.cases) auto
  from assms(1) evs obtain w0 where "replay wp w0 [ev] = Some w'"
    by (auto simp: replay_append split: option.splits)
  with ev have "page wp c w0 = (Inr t, w')"
    by (auto split: prod.splits if_splits)
  with evs ev show ?thesis by auto
qed

lemma try_pages_replay:
  "try_pages wp st cs w = (r, w', evs) \<Longrightarrow> replay wp w evs = Some w'"
proof (induction cs arbitrary: w r w' evs)
  case Nil
  then show ?case by auto
next
  case (Cons c cs)
  from Cons.prems show ?case
  proof (cases rule: try_pages_cases)
    case (success t)
    then show ?thesis by simp
  next
    case (interrupt e)
    then show ?thesis by simp
  next
    case (continue e w1 evs')
    with Cons.IH [OF continue(3)] show ?thesis by simp
  qed
qed

lemma try_titles_replay:
  "try_titles wp brand ts w = (r, w', evs) \<Longrightarrow> replay wp w evs = Some w'"
proof (induction ts arbitrary: w r w' evs)
  case Nil
  then show ?case by auto
next
  case (Cons title rest)
  from Cons.prems show ?case
  proof (cases rule: try_titles_cases)
    case (success t)
    then show ?thesis by simp
  next
    case (stop options w1 cevs)
    with try_pages_replay [OF stop(2)] show ?thesis by simp
  next
    case (next_title options w1 w2 cevs evs')
    with try_pages_replay [OF next_title(2)] Cons.IH [OF next_title(3)] show ?thesis
      by (simp add: replay_append)
  next
    case interrupt
    then show ?thesis by simp
  next
    case (continue e w1 evs')
    with Cons.IH [OF continue(3)] show ?thesis by simp
  qed
qed

lemma search_fallback_replay:
  assumes "search_fallback wp brand w = (r, w', evs)"
  shows "replay wp w evs = Some w'"
  using assms
proof (cases rule: search_fallback_cases)
  case (hits hits w1 hevs)
  with try_pages_replay [OF hits(2)] show ?thesis by simp
next
  case (failed e)
  then show ?thesis by simp
qed

lemma has_wikipedia_page_replay:
  assumes "has_wikipedia_page wp brand w = (res, w', evs)"
  shows "replay wp w evs = Some w'"
  using assms
proof (cases rule: has_wikipedia_page_cases)
  case (found t)
  from try_titles_replay [OF found(1)] show ?thesis .
next
  case (interrupt e)
  from try_titles_replay [OF interrupt(1)] show ?thesis .
next
  case (fallback w1 tevs r sevs)
  with try_titles_replay [OF fallback(1)] search_fallback_replay [OF fallback(2)]
  show ?thesis by (simp add: replay_append)
qed

text \<open>
  C10. The pair returned has the flag 0 or 1, and its title is absent exactly
  when the flag is 0. The calls recorded are the calls made: replayed against the
  service from the world the resolver started in, each is answered as recorded,
  and they end in the world the resolver ends in. When the flag is 1, the last
  of these calls is a page fetch that the service answered with a page, and the
  title returned is the title of that page.
\<close>

theorem returned_pair_shape:
  assumes "has_wikipedia_page wp brand w = (Inr (flag, title), w', evs)"
  shows "(flag = 0 \<or> flag = 1) \<and> (title = None \<longleftrightarrow> flag = 0) \<and>
         replay wp w evs = Some w' \<and>
         (flag = 1 \<longrightarrow>
            evs \<noteq> [] \<and> succeeded (last evs) \<and> page_title (last evs) = title \<and>
            (\<exists>w0. page wp (fetched (last evs)) w0 = (Inr (the title), w')))"
proof -
  note played = has_wikipedia_page_replay [OF assms]
  have shape: "(flag = 0 \<or> flag = 1) \<and> (title = None \<longleftrightarrow> flag = 0) \<and>
      (flag = 1 \<longrightarrow> evs \<noteq> [] \<and> succeeded (last evs) \<and> page_title (last evs) = title)"
    using assms
  proof (cases rule: has_wikipedia_page_cases)
    case (found t)
    with try_titles_result [OF found(1)] show ?thesis by (simp add: succeeded_def)
  next
    case (interrupt e)
    then show ?thesis by simp
  next
    case (fallback w1 tevs r sevs)
    from search_fallback_result [OF fallback(2)] fallback(3,4) show ?thesis
      by (auto simp: succeeded_def split: sum.splits option.splits)
  qed
  have "\<exists>w0. page wp (fetched (last evs)) w0 = (Inr (the title), w')" if "flag = 1"
  proof -
    from shape that obtain t where "evs \<noteq> []" "page_title (last evs) = Some t" "title = Some t"
      by (cases title) auto
    with replay_last_page [OF played] show ?thesis by auto
  qed
  with shape played show ?thesis by blast
qed

theorem returned_pair_shape_witness:
  "has_wikipedia_page redirecting ''VANDELAY'' 0 =
     (Inr (1, Some ''Vandelay Industries (company)''), 3,
      [PageCall TitleLoop ''VANDELAY'' (Inl (DisambiguationError vandelay_options)),
       PageCall CandidateLoop ''Art Vandelay'' (Inl OtherException),
       PageCall CandidateLoop ''Vandelay Industries'' (Inr ''Vandelay Industries (company)'')]) \<and>
   replay redirecting 0
     [PageCall TitleLoop ''VANDELAY'' (Inl (DisambiguationError vandelay_options)),
      PageCall CandidateLoop ''Art Vandelay'' (Inl OtherException),
      PageCall CandidateLoop ''Vandelay Industries'' (Inr ''Vandelay Industries (company)'')] =
     Some 3 \<and>
   page redirecting ''Vandelay Industries'' 2 = (Inr ''Vandelay Industries (company)'', 3) \<and>
   page redirecting ''Importer-exporter'' 2 = (Inl PageError, 3)"
proof -
  have run: "has_wikipedia_page redirecting ''VANDELAY'' 0 =
     (Inr (1, Some ''Vandelay Industries (company)''), 3,
      [PageCall TitleLoop ''VANDELAY'' (Inl (DisambiguationError vandelay_options)),
       PageCall CandidateLoop ''Art Vandelay'' (Inl OtherException),
       PageCall CandidateLoop ''Vandelay Industries'' (Inr ''Vandelay Industries (company)'')])"
    by code_simp
  have fetch: "page redirecting ''Vandelay Industries'' 2 =
      (Inr ''Vandelay Industries (company)'', 3)"
    by code_simp
  have other: "page redirecting ''Importer-exporter'' 2 = (Inl PageError, 3)"
    by code_simp
  from returned_pair_shape [OF run]
  have "replay redirecting 0
     [PageCall TitleLoop ''VANDELAY'' (Inl (DisambiguationError vandelay_options)),
      PageCall CandidateLoop ''Art Vandelay'' (Inl OtherException),
      PageCall CandidateLoop ''Vandelay Industries'' (Inr ''Vandelay Industries (company)'')] =
     Some 3"
    by blast
  with run fetch other show ?thesis by blast
qed

section \<open>Properties of the association tester\<close>

subsection \<open>The contingency table\<close>

lemma tab_sum_crosstab: "tab_sum (crosstab a b) = min (length a) (length b)"
proof -
  have "tab_sum (crosstab a b) =
          (\<Sum>i \<in> set a. \<Sum>j \<in> set b. count_list (zip a b) (i, j))"
    by (simp add: tab_sum_def crosstab_def Let_def comp_def sum_list_distinct_conv_sum_set)
  also have "\<dots> = sum (count_list (zip a b)) (set a \<times> set b)"
    by (simp add: sum.cartesian_product)
  also have "\<dots> = length (zip a b)"
    by (rule sum_count_set) (auto dest: set_zip_leftD set_zip_rightD)
  finally show ?thesis by simp
qed

lemma tab_size_crosstab: "tab_size (crosstab a b) = card (set a) * card (set b)"
proof -
  have "length (sort (remdups x)) = card (set x)" for x :: "int list"
    by (simp add: length_remdups_card_conv)
  then show ?thesis
    by (simp add: tab_size_def crosstab_def Let_def comp_def sum_list_triv)
qed

lemma crosstab_empty_iff:
  "length a = length b \<Longrightarrow> tab_size (crosstab a b) = 0 \<longleftrightarrow> a = []"
  by (auto simp: tab_size_crosstab)

lemma count_zip_pos:
  assumes "k < length a" and "length a = length b"
  shows "0 < count_list (zip a b) (a ! k, b ! k)"
proof -
  from assms have "(a ! k, b ! k) \<in> set (zip a b)"
    by (auto simp: set_zip)
  then have "count_list (zip a b) (a ! k, b ! k) \<noteq> 0"
    by (simp add: count_list_0_iff)
  then show ?thesis by simp
qed

lemma crosstab_row_sums:
  assumes "length a = length b" and "r \<in> set (crosstab a b)"
  shows "0 < sum_list r"
proof -
  from assms(2) obtain i where i: "i \<in> set a"
    and r: "r = map (\<lambda>j. count_list (zip a b) (i, j)) (sort (remdups b))"
    by (auto simp: crosstab_def Let_def)
  from i obtain k where k: "k < length a" "a ! k = i"
    by (auto simp: in_set_conv_nth)
  with assms(1) have "b ! k \<in> set (sort (remdups b))" by simp
  then have "count_list (zip a b) (i, b ! k) \<in> set r"
    unfolding r by auto
  then have "count_list (zip a b) (i, b ! k) \<le> sum_list r"
    by (rule member_le_sum_list) simp
  with count_zip_pos [OF k(1) assms(1)] k(2) show ?thesis by simp
qed


lemma crosstab_rows:
  "r \<in> set (crosstab a b) \<Longrightarrow> length r = length (sort (remdups b))"
  by (auto simp: crosstab_def Let_def)

lemma crosstab_col_sums:
  assumes "length a = length b" and "c \<in> set (col_sums (crosstab a b))"
  shows "0 < c"
proof -
  let ?index = "sort (remdups a)" and ?columns = "sort (remdups b)"
  have tab: "crosstab a b = map (\<lambda>i. map (\<lambda>j. count_list (zip a b) (i, j)) ?columns) ?index"
    by (simp add: crosstab_def Let_def)
  have "\<exists>j < length ?columns. c = sum_list (map (\<lambda>r. r ! j) (crosstab a b))"
  proof (cases "crosstab a b")
    case Nil
    with assms(2) show ?thesis by (simp add: col_sums_def)
  next
    case (Cons row rows)
    then have "row \<in> set (crosstab a b)" by simp
    then have "length row = length ?columns" by (rule crosstab_rows)
    with assms(2) Cons show ?thesis by (auto simp: col_sums_def simp del: length_sort)
  qed
  then obtain j where j: "j < length ?columns"
    and c: "c = sum_list (map (\<lambda>r. r ! j) (crosstab a b))"
    by blast
  from j have c': "c = sum_list (map (\<lambda>i. count_list (zip a b) (i, ?columns ! j)) ?index)"
    unfolding c tab by (simp add: comp_def del: length_sort)
  from j have "?columns ! j \<in> set b"
    using nth_mem [OF j] by simp
  then obtain k where k: "k < length b" "b ! k = ?columns ! j"
    by (auto simp: in_set_conv_nth)
  with assms(1) have "a ! k \<in> set ?index" by simp
  then have "count_list (zip a b) (a ! k, ?columns ! j)
               \<in> set (map (\<lambda>i. count_list (zip a b) (i, ?columns ! j)) ?index)"
    by auto
  then have "count_list (zip a b) (a ! k, ?columns ! j) \<le> c"
    unfolding c' by (rule member_le_sum_list) simp
  with count_zip_pos [of k a b] k assms(1) show ?thesis by simp
qed

subsection \<open>Rounding to doubles\<close>

lemma rne_eqI:
  assumes "of_int m - 1 / 2 < x" and "x < of_int m + 1 / 2"
  shows "rne x = m"
proof -
  have "\<lfloor>x\<rfloor> = m \<or> \<lfloor>x\<rfloor> = m - 1" using assms by linarith
  then show ?thesis
  proof
    assume f: "\<lfloor>x\<rfloor> = m"
    then have "x - of_int \<lfloor>x\<rfloor> < 1 / 2" using assms by simp
    with f show ?thesis by (simp add: rne_def Let_def)
  next
    assume f: "\<lfloor>x\<rfloor> = m - 1"
    then have "1 / 2 < x - of_int \<lfloor>x\<rfloor>" using assms by simp
    with f show ?thesis by (simp add: rne_def Let_def)
  qed
qed

lemma rne_of_int: "rne (of_int m) = m"
  by (rule rne_eqI) simp_all

lemma two_powr_int: "2 powr real_of_int k = (2::real) powi k"
  by (simp add: powr_real_of_int')

lemma ulp_exponent_eqI:
  assumes "0 < x" and "2 powi (e + 52) \<le> x" and "x < 2 powi (e + 53)" and "- 1074 \<le> e"
  shows "ulp_exponent x = e"
proof -
  have "2 powr real_of_int (e + 52) \<le> x" and "x < 2 powr (real_of_int (e + 52) + 1)"
    using assms(2,3) two_powr_int [of "e + 52"] two_powr_int [of "e + 53"]
    by (simp_all add: add.commute)
  with assms(1) have "\<lfloor>log 2 x\<rfloor> = e + 52"
    by (subst floor_log_eq_powr_iff) simp_all
  with assms(1,4) show ?thesis by (simp add: ulp_exponent_def)
qed

lemma ulp_exponent_subnormal:
  assumes "0 < x" and "x < 2 powi (- 1021)"
  shows "ulp_exponent x = - 1074"
proof -
  from assms(2) have "x < 2 powr real_of_int (- 1021)"
    by (simp only: two_powr_int)
  with assms(1) have "log 2 x < real_of_int (- 1021)"
    by (subst log_less_iff) simp_all
  then have "\<lfloor>log 2 x\<rfloor> - 52 \<le> - 1074" by linarith
  moreover from assms(1) have "\<bar>x\<bar> = x" by simp
  ultimately show ?thesis unfolding ulp_exponent_def by (simp only: max_absorb2)
qed

lemma round_binary64_eqI:
  assumes "0 < x" and "ulp_exponent x = e"
    and "of_int m - 1 / 2 < x / 2 powi e" and "x / 2 powi e < of_int m + 1 / 2"
  shows "round_binary64 x = of_int m * 2 powi e"
  using assms rne_eqI [OF assms(3,4)] by (simp add: round_binary64_def)


lemma rne_cases: "rne x = \<lfloor>x\<rfloor> \<or> rne x = \<lfloor>x\<rfloor> + 1"
  by (simp add: rne_def Let_def)

lemma rne_nonneg: "0 \<le> x \<Longrightarrow> 0 \<le> rne x"
  using rne_cases [of x] by auto

lemma rne_pos: "1 \<le> x \<Longrightarrow> 1 \<le> rne x"
  using rne_cases [of x] by (auto simp: le_floor_iff)

lemma round_binary64_nonneg: "0 \<le> x \<Longrightarrow> 0 \<le> round_binary64 x"
  by (simp add: round_binary64_def rne_nonneg)

lemma ulp_below: 
  assumes "1 \<le> x"
  shows "2 powi ulp_exponent x \<le> x"
proof -
  from assms have x: "0 < x" "\<bar>x\<bar> = x" by simp_all
  have "0 \<le> log 2 x" using assms by simp
  then have f: "0 \<le> \<lfloor>log 2 x\<rfloor>" by simp
  then have e: "ulp_exponent x = \<lfloor>log 2 x\<rfloor> - 52"
    using x by (simp add: ulp_exponent_def)
  have "2 powi (\<lfloor>log 2 x\<rfloor> - 52) \<le> (2::real) powi \<lfloor>log 2 x\<rfloor>"
    by (rule power_int_increasing) simp_all
  also have "\<dots> = 2 powr real_of_int \<lfloor>log 2 x\<rfloor>"
    by (simp only: two_powr_int)
  also have "\<dots> \<le> 2 powr log 2 x"
    by (rule powr_mono) simp_all
  also have "\<dots> = x" using x by simp
  finally show ?thesis by (simp only: e)
qed

lemma round_binary64_pos: 
  assumes "1 \<le> x"
  shows "0 < round_binary64 x"
proof -
  let ?u = "(2::real) powi ulp_exponent x"
  have u: "0 < ?u" by simp
  with ulp_below [OF assms] have "1 \<le> x / ?u" by (simp add: le_divide_eq)
  then have "1 \<le> rne (x / ?u)" by (rule rne_pos)
  then have "0 < real_of_int (rne (x / ?u)) * ?u" using u by simp
  with assms show ?thesis by (simp add: round_binary64_def)
qed


lemma round_binary64_double:
  assumes "2 ^ 52 \<le> m" and "m < 2 ^ 53" and "- 1074 \<le> e"
  shows "round_binary64 (of_int m * 2 powi e) = of_int m * 2 powi e"
proof -
  let ?x = "real_of_int m * 2 powi e"
  have u: "0 < (2::real) powi e" by simp
  have m_lo: "(2::real) ^ 52 \<le> real_of_int m"
    using assms(1) of_int_le_iff [where ?'a = real, of "2 ^ 52" m] by simp
  have m_hi: "real_of_int m < 2 ^ 53"
    using assms(2) of_int_less_iff [where ?'a = real, of m "2 ^ 53"] by simp
  from m_lo have m: "0 < real_of_int m" by simp
  have pos: "0 < ?x" using m u by simp
  have "(2::real) powi (e + 52) = 2 ^ 52 * 2 powi e"
    by (simp add: power_int_add)
  also have "\<dots> \<le> ?x" using m_lo u by (intro mult_right_mono) simp_all
  finally have lo: "2 powi (e + 52) \<le> ?x" .
  have "?x < 2 ^ 53 * 2 powi e" using m_hi u by (intro mult_strict_right_mono) simp_all
  also have "\<dots> = 2 powi (e + 53)" by (simp add: power_int_add)
  finally have hi: "?x < 2 powi (e + 53)" .
  have e: "ulp_exponent ?x = e" using pos lo hi assms(3) by (rule ulp_exponent_eqI)
  show ?thesis by (rule round_binary64_eqI [OF pos e]) simp_all
qed


lemma round_binary64_4: "round_binary64 4 = 4"
  using round_binary64_double [of "2 ^ 52" "- 50"] by (simp add: power_int_minus)




lemma round_binary64_1: "round_binary64 1 = 1"
  using round_binary64_double [of "2 ^ 52" "- 52"] by (simp add: power_int_minus)

lemma float_of_count_exact:
  assumes "n < 2 ^ 53"
  shows "float_of_count n = real n"
proof (cases "n = 0")
  case True
  then show ?thesis by (simp add: float_of_count_def round_binary64_def)
next
  case False
  let ?x = "real n"
  let ?k = "\<lfloor>log 2 ?x\<rfloor>"
  from False have x: "1 \<le> ?x" "0 < ?x" "\<bar>?x\<bar> = ?x" by simp_all
  have k0: "0 \<le> ?k" using x(1) by simp
  from assms have "?x < 2 ^ 53"
    using of_nat_less_iff [where ?'a = real, of n "2 ^ 53"] by simp
  then have "?x < 2 powr 53" by simp
  then have "log 2 ?x < 53" using x(2) by (subst log_less_iff) simp_all
  then have k52: "?k \<le> 52" by linarith
  from k0 have e: "ulp_exponent ?x = ?k - 52"
    using x(3) by (simp add: ulp_exponent_def)
  define j where "j = nat (52 - ?k)"
  from k52 have j: "?k - 52 = - int j" by (simp add: j_def)
  have "?x / 2 powi (?k - 52) = ?x * 2 ^ j"
    by (simp add: j power_int_minus field_simps)
  also have "\<dots> = real_of_int (int n * 2 ^ j)" by simp
  finally have q: "?x / 2 powi (?k - 52) = real_of_int (int n * 2 ^ j)" .
  have "round_binary64 ?x = of_int (rne (?x / 2 powi (?k - 52))) * 2 powi (?k - 52)"
    using False by (simp add: round_binary64_def e)
  also have "\<dots> = real_of_int (int n * 2 ^ j) * 2 powi (?k - 52)"
    by (simp only: q rne_of_int)
  also have "\<dots> = ?x" by (simp add: j power_int_minus field_simps)
  finally show ?thesis by (simp add: float_of_count_def)
qed

lemma float_of_count_pos: "0 < n \<Longrightarrow> 0 < float_of_count n"
  unfolding float_of_count_def by (rule round_binary64_pos) simp

lemma float_div_nonneg: "0 \<le> x \<Longrightarrow> 0 < y \<Longrightarrow> 0 \<le> float_div x y"
  unfolding float_div_def by (rule round_binary64_nonneg) simp

subsection \<open>A table with a zero cell\<close>

lemma zero_cell_table:
  assumes len: "length a = length b" and zero: "zero_cells (crosstab a b) = 1"
  shows "2 \<le> length (crosstab a b) \<and> (\<forall>r \<in> set (crosstab a b). 2 \<le> length r)"
proof -
  let ?tab = "crosstab a b"
  from zero have "filter (\<lambda>c. c = 0) (concat ?tab) \<noteq> []"
    by (auto simp: zero_cells_def)
  then obtain r where r: "r \<in> set ?tab" and r0: "0 \<in> set r"
    by (auto simp: filter_empty_conv)
  from r0 obtain j where j: "j < length r" "r ! j = 0"
    by (auto simp: in_set_conv_nth)
  have width: "2 \<le> length r"
  proof (rule ccontr)
    assume "\<not> 2 \<le> length r"
    then have "length r \<le> 1" by simp
    with j have "length r = 1" and "j = 0" by simp_all
    with j have "r = [0]" by (cases r) simp_all
    with crosstab_row_sums [OF len r] show False by simp
  qed
  have rows: "\<forall>r' \<in> set ?tab. 2 \<le> length r'"
    using width crosstab_rows [OF r] crosstab_rows by metis
  have height: "2 \<le> length ?tab"
  proof (rule ccontr)
    assume "\<not> 2 \<le> length ?tab"
    moreover from r have "0 < length ?tab" by (cases ?tab) auto
    ultimately have "length ?tab = Suc 0" by arith
    then obtain x where "?tab = [x]" by (auto simp: length_Suc_conv)
    with r have tab: "?tab = [r]" by simp
    then have "col_sums ?tab = map (\<lambda>j. r ! j) [0..<length r]"
      by (simp add: col_sums_def)
    with j have "0 \<in> set (col_sums ?tab)" by (auto simp: image_iff intro: bexI [of _ j])
    with crosstab_col_sums [OF len] show False by blast
  qed
  from height rows show ?thesis ..
qed

subsection \<open>The claims about the association tester\<close>

lemma frame_table_sum:
  "tab_sum (crosstab (map HasWiki df) (map Mentioned df)) = length df"
  by (simp add: tab_sum_crosstab)

lemma frame_table_size:
  "tab_size (crosstab (map HasWiki df) (map Mentioned df)) = 0 \<longleftrightarrow> df = []"
  using crosstab_empty_iff [of "map HasWiki df" "map Mentioned df"] by simp

lemma three_cells_table:
  "crosstab (map HasWiki three_cells) (map Mentioned three_cells) = [[1, 1], [0, 2]]"
  by code_simp

text \<open>
  C3. When the table of the frame has no cell or its counts sum to zero, the
  tester reports the statistic 0, the p-value 1, 0 degrees of freedom and phi 0,
  whatever \<^verbatim>\<open>chi2_contingency\<close> would do: also with a test that raises on every
  table, so the test is not called.
\<close>

theorem degenerate_table_report:
  assumes "tab = crosstab (map HasWiki df) (map Mentioned df)"
      and "tab_size tab = 0 \<or> tab_sum tab = 0"
  shows "chi_square_on_haswiki chi2_contingency df = Inr (0, 1, 0, Float 0) \<and>
         chi_square_on_haswiki failing_test df = Inr (0, 1, 0, Float 0)"
  using assms by (auto simp: chi_square_on_haswiki_def Let_def)

theorem degenerate_table_report_witness:
  "crosstab (map HasWiki []) (map Mentioned []) = [] \<and> tab_size [] = 0 \<and>
   chi_square_on_haswiki failing_test [] = Inr (0, 1, 0, Float 0)"
proof -
  have tab: "[] = crosstab (map HasWiki ([] :: wiki_row list)) (map Mentioned ([] :: wiki_row list))"
    by (simp add: crosstab_def)
  have size: "tab_size [] = 0 \<or> tab_sum [] = 0"
    by (simp add: tab_size_def)
  from degenerate_table_report [OF tab size, of failing_test] tab show ?thesis
    by (simp add: tab_size_def)
qed

text \<open>What the tester reports on a table that is not degenerate.\<close>

lemma tester_report:
  assumes "df \<noteq> []"
      and "chi2_contingency (crosstab (map HasWiki df) (map Mentioned df)) = Inr (chi2, p, dof, expected)"
      and "0 \<le> chi2"
  shows "chi_square_on_haswiki chi2_contingency df =
           Inr (chi2, p, dof,
                Float (round_binary64 (sqrt (float_div chi2 (float_of_count (length df))))))"
proof -
  from assms(1) have n: "0 < length df" by simp
  with assms(3) have "\<not> float_div chi2 (float_of_count (length df)) < 0"
    using float_div_nonneg [OF _ float_of_count_pos] by (simp add: not_less)
  with assms(1,2) n show ?thesis
    by (simp add: chi_square_on_haswiki_def Let_def math_sqrt_def frame_table_size
        frame_table_sum)
qed





text \<open>
  C9. When exactly one cell of the table of the frame is zero (the other cells
  are then positive), the table has at least two rows and two columns and all its
  row sums and column sums are positive, so that no expected frequency is zero.
  If \<^verbatim>\<open>chi2_contingency\<close> keeps what its documentation promises for such a
  table, it returns, and the tester raises nothing and reports the statistic, the
  p-value and the degrees of freedom that the test returned, and as phi the
  square root in doubles of the statistic divided by the number of records.
\<close>

theorem one_zero_cell_computable:
  assumes "chi2_contract chi2_contingency"
      and "tab = crosstab (map HasWiki df) (map Mentioned df)"
      and "zero_cells tab = 1"
  shows "2 \<le> length tab \<and> (\<forall>r \<in> set tab. 2 \<le> length r \<and> 0 < sum_list r) \<and>
         (\<forall>c \<in> set (col_sums tab). 0 < c) \<and>
         (\<exists>chi2 p dof expected.
            chi2_contingency tab = Inr (chi2, p, dof, expected) \<and> 0 \<le> chi2 \<and>
            chi_square_on_haswiki chi2_contingency df =
              Inr (chi2, p, dof,
                Float (round_binary64 (sqrt (float_div chi2 (float_of_count (length df)))))))"
proof -
  let ?a = "map HasWiki df" and ?b = "map Mentioned df"
  have len: "length ?a = length ?b" by simp
  from assms(2,3) have shape: "2 \<le> length tab" "\<forall>r \<in> set tab. 2 \<le> length r"
    using zero_cell_table [OF len] by simp_all
  from shape(1) assms(2) have rows_df: "df \<noteq> []"
    by (auto simp: crosstab_def)
  then have size: "tab_size tab \<noteq> 0"
    using assms(2) by (simp add: frame_table_size)
  have rows: "\<forall>r \<in> set tab. 0 < sum_list r"
    using crosstab_row_sums [OF len] assms(2) by blast
  have cols: "\<forall>c \<in> set (col_sums tab). 0 < c"
    using crosstab_col_sums [OF len] assms(2) by blast
  from assms(1) size rows cols obtain chi2 p dof expected where
    test: "chi2_contingency tab = Inr (chi2, p, dof, expected)" and chi2: "0 \<le> chi2"
    unfolding chi2_contract_def by blast
  from test assms(2) have
    "chi_square_on_haswiki chi2_contingency df =
       Inr (chi2, p, dof,
         Float (round_binary64 (sqrt (float_div chi2 (float_of_count (length df))))))"
    using tester_report [OF rows_df _ chi2] by simp
  with test chi2 shape rows cols show ?thesis by blast
qed

theorem one_zero_cell_computable_witness:
  "chi2_contract (returning 4) \<and>
   crosstab (map HasWiki three_cells) (map Mentioned three_cells) = [[1, 1], [0, 2]] \<and>
   zero_cells [[1, 1], [0, 2]] = 1 \<and>
   returning 4 [[1, 1], [0, 2]] = Inr (4, 1 / 32, 1, []) \<and>
   chi_square_on_haswiki (returning 4) three_cells = Inr (4, 1 / 32, 1, Float 1)"
proof -
  have contract: "chi2_contract (returning 4)"
    unfolding chi2_contract_def returning_def
    by (intro allI impI exI [of _ 4] exI [of _ "1 / 32"] exI [of _ 1] exI [of _ "[]"]) simp
  have tab: "[[1, 1], [0, 2]] = crosstab (map HasWiki three_cells) (map Mentioned three_cells)"
    by (simp only: three_cells_table)
  have zero: "zero_cells [[1, 1], [0, 2]] = 1"
    by (simp add: zero_cells_def)
  have test: "returning 4 [[1, 1], [0, 2]] = Inr (4, 1 / 32, 1, [])"
    by (simp add: returning_def)
  have n: "length three_cells = 4"
    by (simp add: three_cells_def)
  have four: "float_of_count 4 = 4"
    using float_of_count_exact [of 4] by simp
  have root: "round_binary64 (sqrt (float_div 4 (float_of_count (length three_cells)))) = 1"
    by (simp add: n four float_div_def round_binary64_1)
  from one_zero_cell_computable [OF contract tab zero] obtain chi2 p dof expected where
    "returning 4 [[1, 1], [0, 2]] = Inr (chi2, p, dof, expected)" and
    "chi_square_on_haswiki (returning 4) three_cells =
       Inr (chi2, p, dof,
         Float (round_binary64 (sqrt (float_div chi2 (float_of_count (length three_cells))))))"
    by blast
  with test root
  have "chi_square_on_haswiki (returning 4) three_cells = Inr (4, 1 / 32, 1, Float 1)"
    by simp
  with contract tab zero test show ?thesis by simp
qed

text \<open>Without that promise the tester can raise: nothing in it catches the exception.\<close>

lemma test_failure_propagates:
  "chi_square_on_haswiki failing_test three_cells = Inl ValueError"
  by (simp add: chi_square_on_haswiki_def failing_test_def tab_size_def tab_sum_def
      three_cells_table)

end
